theory Spec2Isabelle
  imports Complex_Main "HOL-Library.Sublist"
begin

section \<open>RADAR-DPC downloader: a shallow embedding of radar_downloader.py\<close>

subsection \<open>JSON values as \<open>json.loads\<close> returns them\<close>

text \<open>
  \<open>JsonLike = Union[dict, list, str, int, float, bool, None]\<close>. Python's \<open>json.loads\<close>
  accepts the literals \<open>NaN\<close>, \<open>Infinity\<close> and \<open>-Infinity\<close>, so a float is a finite
  real or one of the three special values. A dict is an association list read through
  \<open>map_of\<close>; the parser has already resolved repeated keys.
\<close>

datatype pyfloat = Finite real | PosInf | NegInf | NaN

datatype json =
    JNull
  | JBool bool
  | JInt int
  | JFloat pyfloat
  | JStr string
  | JList "json list"
  | JDict "(string \<times> json) list"

type_synonym pydict = "(string \<times> json) list"

text \<open>\<open>k in d\<close> and \<open>d.get(k)\<close> (which is \<open>None\<close> for a missing key).\<close>

definition py_in :: "string \<Rightarrow> pydict \<Rightarrow> bool" where
  "py_in k d = (map_of d k \<noteq> None)"

definition py_get :: "pydict \<Rightarrow> string \<Rightarrow> json" where
  "py_get d k = (case map_of d k of None \<Rightarrow> JNull | Some v \<Rightarrow> v)"

subsection \<open>\<open>PureWsClient._extract_events\<close>\<close>

text \<open>
  The generator's yields, in order, as a list. A dict is unwrapped to \<open>obj["data"]\<close>
  when that is a dict holding \<open>productType\<close> or \<open>time\<close>, and yielded itself otherwise;
  a list yields its dict members; anything else yields nothing.
\<close>

fun extract_events :: "json \<Rightarrow> pydict list" where
  "extract_events (JDict obj) =
     (case map_of obj ''data'' of
        Some (JDict d) \<Rightarrow>
          if py_in ''productType'' d \<or> py_in ''time'' d then [d] else [obj]
      | _ \<Rightarrow> [obj])"
| "extract_events (JList items) =
     concat (map (\<lambda>item. case item of JDict d \<Rightarrow> [d] | _ \<Rightarrow> []) items)"
| "extract_events _ = []"

text \<open>
  The envelope shape in the specification's words: an object wrapping a nested object
  that contains a recognizable event field.
\<close>

definition wraps_event :: "pydict \<Rightarrow> pydict \<Rightarrow> bool" where
  "wraps_event obj d \<longleftrightarrow>
     map_of obj ''data'' = Some (JDict d) \<and>
     (\<exists>v. map_of d ''productType'' = Some v \<or> map_of d ''time'' = Some v)"

fun is_object :: "json \<Rightarrow> bool" where
  "is_object (JDict _) = True"
| "is_object _ = False"

fun is_array :: "json \<Rightarrow> bool" where
  "is_array (JList _) = True"
| "is_array _ = False"

subsection \<open>Strings, truth values and numbers as Python sees them\<close>

datatype py_error =
    AttributeError
  | TypeError
  | ValueError string
  | OverflowError
  | RuntimeError
  | OSError
  | HTTPError
  | ConnectionError

text \<open>
  \<open>str.upper\<close> and \<open>str.strip\<close>, on the ASCII range: a string is a list of bytes, the
  lower-case letters \<open>a\<close> to \<open>z\<close> are mapped to upper case and every other byte is
  kept; \<open>strip\<close> removes the ASCII white space Python removes.
\<close>

definition upper_char :: "char \<Rightarrow> char" where
  "upper_char c =
     (case map_of (zip ''abcdefghijklmnopqrstuvwxyz'' ''ABCDEFGHIJKLMNOPQRSTUVWXYZ'') c of
        Some u \<Rightarrow> u
      | None \<Rightarrow> c)"

definition py_upper :: "string \<Rightarrow> string" where
  "py_upper s = map upper_char s"

definition is_space :: "char \<Rightarrow> bool" where
  "is_space c \<longleftrightarrow>
     c \<in> set [CHR '' '', CHR 0x09, CHR 0x0A, CHR 0x0B, CHR 0x0C, CHR 0x0D,
               CHR 0x1C, CHR 0x1D, CHR 0x1E, CHR 0x1F]"

definition py_strip :: "string \<Rightarrow> string" where
  "py_strip s = rev (dropWhile is_space (rev (dropWhile is_space s)))"

text \<open>\<open>bool(x)\<close>, and \<open>a or b\<close>, which is \<open>a\<close> when \<open>a\<close> is true and \<open>b\<close> otherwise.\<close>

fun truthy :: "json \<Rightarrow> bool" where
  "truthy JNull = False"
| "truthy (JBool b) = b"
| "truthy (JInt i) = (i \<noteq> 0)"
| "truthy (JFloat f) = (f \<noteq> Finite 0)"
| "truthy (JStr s) = (s \<noteq> [])"
| "truthy (JList xs) = (xs \<noteq> [])"
| "truthy (JDict d) = (d \<noteq> [])"

definition py_or :: "json \<Rightarrow> json \<Rightarrow> json" where
  "py_or a b = (if truthy a then a else b)"

text \<open>\<open>isinstance(x, (int, float))\<close>: \<open>bool\<close> is a subclass of \<open>int\<close>.\<close>

fun is_int_or_float :: "json \<Rightarrow> bool" where
  "is_int_or_float (JInt _) = True"
| "is_int_or_float (JFloat _) = True"
| "is_int_or_float (JBool _) = True"
| "is_int_or_float _ = False"

text \<open>
  \<open>int(x)\<close>: truncation towards zero for a finite float, \<open>OverflowError\<close> for an
  infinity, \<open>ValueError\<close> for a NaN.
\<close>

fun py_int :: "json \<Rightarrow> py_error + int" where
  "py_int (JInt i) = Inr i"
| "py_int (JBool b) = Inr (if b then 1 else 0)"
| "py_int (JFloat (Finite r)) = Inr (if 0 \<le> r then \<lfloor>r\<rfloor> else \<lceil>r\<rceil>)"
| "py_int (JFloat PosInf) = Inl OverflowError"
| "py_int (JFloat NegInf) = Inl OverflowError"
| "py_int (JFloat NaN) = Inl (ValueError ''cannot convert float NaN to integer'')"
| "py_int _ = Inl TypeError"

text \<open>\<open>str(n)\<close> for an integer: decimal digits, with a minus sign when negative.\<close>

definition digit_char :: "nat \<Rightarrow> char" where
  "digit_char d = ''0123456789'' ! d"

fun str_nat :: "nat \<Rightarrow> string" where
  "str_nat n = (if n < 10 then [digit_char n] else str_nat (n div 10) @ [digit_char (n mod 10)])"

definition str_int :: "int \<Rightarrow> string" where
  "str_int i = (if i < 0 then CHR ''-'' # str_nat (nat (- i)) else str_nat (nat i))"

subsection \<open>\<open>PureWsClient.run_forever\<close>: the reconnection loop\<close>

definition BACKOFF_MIN :: real where
  "BACKOFF_MIN = 1.0"

definition BACKOFF_MAX :: real where
  "BACKOFF_MAX = 30.0"

text \<open>
  One pass of the loop body, as the environment drives it: whether \<open>stop_event\<close> is set
  when the loop condition is read, how \<open>self.ws.run_forever\<close> ended (it returned, or it
  raised and the exception was logged), and whether \<open>stop_event\<close> is set when it is
  read again after the connection ended.
\<close>

datatype conn_end = Returned | Raised_exception

record attempt =
  stop_at_head :: bool
  ended :: conn_end
  stop_after :: bool

text \<open>
  The loop runs for as long as the process lives; the finite list of attempts is the
  part of the run that is observed, and the result is the list of the arguments of
  \<open>time.sleep\<close>, in order. Both ways a connection can end lead to the same sleep.
\<close>

fun run_forever_loop :: "real \<Rightarrow> attempt list \<Rightarrow> real list" where
  "run_forever_loop backoff [] = []"
| "run_forever_loop backoff (a # rest) =
     (if stop_at_head a then []
      else if stop_after a then []
      else backoff # run_forever_loop (min (backoff * 2) BACKOFF_MAX) rest)"

definition run_forever :: "attempt list \<Rightarrow> real list" where
  "run_forever attempts = run_forever_loop BACKOFF_MIN attempts"

subsection \<open>\<open>App\<close>: allowlist, dedup cache, work queue, threads\<close>

text \<open>A job is the dict \<open>{"productType": ..., "productDate": ...}\<close> put on the queue.\<close>

record job =
  productType :: string
  productDate :: int

text \<open>
  Where a \<open>Downloader\<close> thread stands in \<open>run\<close>: about to read the loop condition,
  inside \<open>self.jobs.get(timeout=0.5)\<close>, inside \<open>process_job\<close> with the job it took, or
  past the loop. The main thread is inside \<open>self.ws.run_forever()\<close>, inside
  \<open>self.jobs.join()\<close>, or past it.
\<close>

datatype wstate = At_loop_head | In_get | Processing job | Worker_exited

datatype mstate = Listening | Joining | Main_exited

record app =
  products :: "string set"
  dedup :: "string \<rightharpoonup> real"
  jobs :: "job list"
  unfinished_tasks :: nat
  stop_event :: bool
  workers :: "wstate list"
  main_thread :: mstate

definition JOBS_MAXSIZE :: nat where
  "JOBS_MAXSIZE = 1000"

text \<open>
  \<open>App.__init__\<close>: the allowlist is stripped and upper-cased, the queue and the dedup
  cache start empty, the workers are started.
\<close>

definition App_init :: "string list \<Rightarrow> nat \<Rightarrow> app" where
  "App_init ps n =
     \<lparr>products = set (map (\<lambda>p. py_upper (py_strip p)) (filter (\<lambda>p. py_strip p \<noteq> []) ps)),
      dedup = Map.empty,
      jobs = [],
      unfinished_tasks = 0,
      stop_event = False,
      workers = replicate n At_loop_head,
      main_thread = Listening\<rparr>"

text \<open>
  \<open>Queue.put_nowait\<close>: \<open>queue.Full\<close> (here \<open>None\<close>) when the queue holds \<open>maxsize\<close> items,
  otherwise the item is appended and counted as unfinished.
\<close>

definition put_nowait :: "job \<Rightarrow> app \<Rightarrow> app option" where
  "put_nowait j a =
     (if JOBS_MAXSIZE \<le> length (jobs a) then None
      else Some (a\<lparr>jobs := jobs a @ [j], unfinished_tasks := unfinished_tasks a + 1\<rparr>))"

text \<open>
  What one call of \<open>on_ws_event\<close> did: it raised before touching anything, ignored the
  event (missing product type or time; product not in the allowlist), found a
  duplicate, enqueued the job (and possibly raised afterwards, while formatting the
  debug message), or dropped the job because the queue was full.
\<close>

datatype outcome =
    Raised py_error
  | Ignored_event
  | Ignored_product
  | Duplicate
  | Enqueued job
  | Enqueued_raised job py_error
  | Dropped job

text \<open>
  \<open>(ev.get("productType") or ev.get("type") or "").upper().strip()\<close>; only a string has
  \<open>upper\<close>.
\<close>

definition event_product_type :: "pydict \<Rightarrow> py_error + string" where
  "event_product_type ev =
     (case py_or (py_get ev ''productType'') (py_or (py_get ev ''type'') (JStr [])) of
        JStr s \<Rightarrow> Inr (py_strip (py_upper s))
      | _ \<Rightarrow> Inl AttributeError)"

definition event_epoch_ms :: "pydict \<Rightarrow> json" where
  "event_epoch_ms ev =
     (let epoch_ms = py_get ev ''time''
      in if epoch_ms = JNull
         then py_or (py_get ev ''productDate'') (py_get ev ''timestamp'')
         else epoch_ms)"

text \<open>
  The first half of \<open>on_ws_event\<close>, which reads no state but the allowlist: the outcome
  when the handler stops there, or the job it goes on with.
\<close>

definition validate_event :: "string set \<Rightarrow> pydict \<Rightarrow> outcome + job" where
  "validate_event allow ev =
     (case event_product_type ev of
        Inl e \<Rightarrow> Inl (Raised e)
      | Inr product_type \<Rightarrow>
          let epoch_ms = event_epoch_ms ev
          in if product_type = [] \<or> \<not> is_int_or_float epoch_ms then Inl Ignored_event
             else if product_type \<notin> allow then Inl Ignored_product
             else (case py_int epoch_ms of
                     Inl e \<Rightarrow> Inl (Raised e)
                   | Inr ms \<Rightarrow> Inr \<lparr>productType = product_type, productDate = ms\<rparr>))"

definition job_key :: "job \<Rightarrow> string" where
  "job_key j = productType j @ '':'' @ str_int (productDate j)"

text \<open>
  \<open>datetime.utcfromtimestamp(epoch_ms / 1000.0)\<close> raises outside the years 1 to 9999.
\<close>

definition utc_in_range :: "int \<Rightarrow> bool" where
  "utc_in_range ms \<longleftrightarrow> - 62135596800000 \<le> ms \<and> ms < 253402300800000"

text \<open>
  \<open>on_ws_event\<close>, with the value \<open>time.time()\<close> returns as the argument \<open>now\<close>. The handler
  never reads \<open>stop_event\<close>.
\<close>

definition on_ws_event :: "real \<Rightarrow> pydict \<Rightarrow> app \<Rightarrow> outcome \<times> app" where
  "on_ws_event now ev a =
     (case validate_event (products a) ev of
        Inl out \<Rightarrow> (out, a)
      | Inr j \<Rightarrow>
          if job_key j \<in> dom (dedup a) then (Duplicate, a)
          else
            let a1 = a\<lparr>dedup := (dedup a)(job_key j \<mapsto> now)\<rparr>
            in (case put_nowait j a1 of
                  None \<Rightarrow> (Dropped j, a1)
                | Some a2 \<Rightarrow>
                    if utc_in_range (productDate j) then (Enqueued j, a2)
                    else (Enqueued_raised j (ValueError ''year is out of range''), a2)))"

text \<open>One pass of \<open>_gc_loop\<close>: entries older than three hours are deleted.\<close>

definition gc_sweep :: "real \<Rightarrow> app \<Rightarrow> app" where
  "gc_sweep now a =
     (let cutoff = now - 3 * 3600
      in a\<lparr>dedup := (\<lambda>k. case dedup a k of
                            None \<Rightarrow> None
                          | Some ts \<Rightarrow> if ts < cutoff then None else Some ts)\<rparr>)"

text \<open>
  One step of worker \<open>i\<close> in \<open>Downloader.run\<close>. At the loop head it leaves the loop when
  \<open>stop_event\<close> is set. In \<open>get\<close> it takes the oldest job, or times out on an empty queue
  and returns to the loop head. After \<open>process_job\<close>, whether that returned or raised,
  \<open>task_done\<close> counts the job as finished.
\<close>

definition worker_step :: "nat \<Rightarrow> app \<Rightarrow> app" where
  "worker_step i a =
     (if length (workers a) \<le> i then a
      else (case workers a ! i of
              At_loop_head \<Rightarrow>
                a\<lparr>workers := (workers a)[i := (if stop_event a then Worker_exited else In_get)]\<rparr>
            | In_get \<Rightarrow>
                (case jobs a of
                   [] \<Rightarrow> a\<lparr>workers := (workers a)[i := At_loop_head]\<rparr>
                 | j # js \<Rightarrow> a\<lparr>jobs := js, workers := (workers a)[i := Processing j]\<rparr>)
            | Processing j \<Rightarrow>
                a\<lparr>unfinished_tasks := unfinished_tasks a - 1,
                  workers := (workers a)[i := At_loop_head]\<rparr>
            | Worker_exited \<Rightarrow> a))"

text \<open>
  One step of the main thread in \<open>App.start\<close>: \<open>self.ws.run_forever()\<close> returns only once
  it has read \<open>stop_event\<close> as set; then \<open>stop_event.set()\<close> and \<open>self.jobs.join()\<close>, which
  returns when no task is unfinished.
\<close>

definition main_step :: "app \<Rightarrow> app" where
  "main_step a =
     (case main_thread a of
        Listening \<Rightarrow> if stop_event a then a\<lparr>stop_event := True, main_thread := Joining\<rparr> else a
      | Joining \<Rightarrow> if unfinished_tasks a = 0 then a\<lparr>main_thread := Main_exited\<rparr> else a
      | Main_exited \<Rightarrow> a)"

text \<open>
  What can happen next in the process: the feed delivers an event to the handler (while
  the main thread is in the listener), the sweep thread makes a pass (while
  \<open>stop_event\<close> is unset), a worker or the main thread takes a step, a termination
  signal arrives. A step returns the outcome of the handler call, if there was one.
\<close>

datatype action = Event real pydict | Sweep real | Worker nat | Signal | Main_step

fun step :: "action \<Rightarrow> app \<Rightarrow> outcome list \<times> app" where
  "step (Event now ev) a =
     (if main_thread a = Listening
      then (let (out, a') = on_ws_event now ev a in ([out], a'))
      else ([], a))"
| "step (Sweep now) a = ([], if stop_event a then a else gc_sweep now a)"
| "step (Worker i) a = ([], worker_step i a)"
| "step Signal a = ([], a\<lparr>stop_event := True\<rparr>)"
| "step Main_step a = ([], main_step a)"

fun run :: "action list \<Rightarrow> app \<Rightarrow> outcome list \<times> app" where
  "run [] a = ([], a)"
| "run (x # xs) a =
     (let (outs, a') = step x a; (outs', a'') = run xs a' in (outs @ outs', a''))"

text \<open>The jobs a sequence of handler calls placed on the queue.\<close>

fun placed :: "outcome \<Rightarrow> job list" where
  "placed (Enqueued j) = [j]"
| "placed (Enqueued_raised j e) = [j]"
| "placed _ = []"

definition placed_with_key :: "string \<Rightarrow> outcome list \<Rightarrow> nat" where
  "placed_with_key k outs = length (filter (\<lambda>j. job_key j = k) (concat (map placed outs)))"

text \<open>
  A sweep that lies within the retention window of an entry recorded at time \<open>t\<close>: it
  runs no later than three hours after \<open>t\<close>. Every other action is unconstrained.
\<close>

fun in_window :: "real \<Rightarrow> action \<Rightarrow> bool" where
  "in_window t (Sweep now) = (now \<le> t + 3 * 3600)"
| "in_window t _ = True"

text \<open>
  The scenario of the specification: the allowlist \<open>VMI, SRI, TEMP\<close>, three workers, and
  the event \<open>{productType: "VMI", time: 1700000000000}\<close>; and the same application
  after 1000 distinct \<open>SRI\<close> events were accepted at time 0 and no worker has taken one
  yet, so that the queue is full.
\<close>

definition vmi_event :: pydict where
  "vmi_event = [(''productType'', JStr ''VMI''), (''time'', JInt 1700000000000)]"

definition vmi_job :: job where
  "vmi_job = \<lparr>productType = ''VMI'', productDate = 1700000000000\<rparr>"

definition fresh_app :: app where
  "fresh_app = App_init [''VMI'', ''SRI'', ''TEMP''] 3"

definition sri_job :: "nat \<Rightarrow> job" where
  "sri_job i = \<lparr>productType = ''SRI'', productDate = int i\<rparr>"

definition full_app :: app where
  "full_app =
     fresh_app\<lparr>dedup := (\<lambda>k. if k \<in> job_key ` sri_job ` {..<1000} then Some 0 else None),
               jobs := map sri_job [0..<1000],
               unfinished_tasks := 1000\<rparr>"

text \<open>
  Two events \<open>json.loads\<close> can deliver: a time of \<open>Infinity\<close>, and a product type that is
  a number.
\<close>

definition infinite_time_event :: pydict where
  "infinite_time_event = [(''productType'', JStr ''VMI''), (''time'', JFloat PosInf)]"

definition numeric_type_event :: pydict where
  "numeric_type_event = [(''productType'', JInt 7), (''time'', JInt 1700000000000)]"

text \<open>
  The bookkeeping of \<open>queue.Queue\<close>: every job that is queued or being processed counts
  as unfinished. A process is \<open>stopped\<close> when \<open>stop_event\<close> is set, no worker is inside
  \<open>get\<close>, the main thread has not left \<open>join\<close>, and the queue still holds a job.
\<close>

fun processing :: "wstate \<Rightarrow> bool" where
  "processing (Processing _) = True"
| "processing _ = False"

definition accounted :: "app \<Rightarrow> bool" where
  "accounted a \<longleftrightarrow>
     length (jobs a) + length (filter processing (workers a)) \<le> unfinished_tasks a"

definition stopped :: "app \<Rightarrow> bool" where
  "stopped a \<longleftrightarrow>
     stop_event a \<and> In_get \<notin> set (workers a) \<and> main_thread a \<noteq> Main_exited \<and>
     jobs a \<noteq> [] \<and> accounted a"

text \<open>
  One worker busy with a \<open>VMI\<close> job while an \<open>SRI\<close> job waits in the queue.
\<close>

definition shutdown_app :: app where
  "shutdown_app =
     (App_init [''VMI'', ''SRI'', ''TEMP''] 1)
       \<lparr>jobs := [\<lparr>productType = ''SRI'', productDate = 1700000300000\<rparr>],
        unfinished_tasks := 2,
        workers := [Processing \<lparr>productType = ''VMI'', productDate = 1700000000000\<rparr>]\<rparr>"

subsection \<open>Paths: \<open>ensure_relative_path\<close> and \<open>safe_join\<close>\<close>

text \<open>
  A \<open>pathlib\<close> path on POSIX: whether it is anchored at \<open>/\<close>, and its components. The
  constructor \<open>Path(s)\<close> splits at \<open>/\<close> and drops empty and \<open>.\<close> components;
  \<open>as_posix\<close> joins them again, and the empty relative path prints as \<open>.\<close>.
\<close>

datatype pypath = PyPath (is_abs: bool) (parts: "string list")

fun split_on :: "char \<Rightarrow> string \<Rightarrow> string list" where
  "split_on c [] = [[]]"
| "split_on c (x # xs) =
     (if x = c then [] # split_on c xs
      else (case split_on c xs of
              [] \<Rightarrow> [[x]]
            | w # ws \<Rightarrow> (x # w) # ws))"

fun join_slash :: "string list \<Rightarrow> string" where
  "join_slash [] = []"
| "join_slash [x] = x"
| "join_slash (x # y # ys) = x @ ''/'' @ join_slash (y # ys)"

definition py_Path :: "string \<Rightarrow> pypath" where
  "py_Path s =
     PyPath (case s of [] \<Rightarrow> False | c # _ \<Rightarrow> c = CHR ''/'')
            (filter (\<lambda>seg. seg \<noteq> [] \<and> seg \<noteq> ''.'') (split_on CHR ''/'' s))"

definition as_posix :: "pypath \<Rightarrow> string" where
  "as_posix p =
     (if is_abs p then ''/'' @ join_slash (parts p)
      else if parts p = [] then ''.'' else join_slash (parts p))"

text \<open>\<open>a / b\<close>, and \<open>Path(*args)\<close>, which joins the paths of its arguments.\<close>

definition joinpath :: "pypath \<Rightarrow> pypath \<Rightarrow> pypath" where
  "joinpath p q = (if is_abs q then q else PyPath (is_abs p) (parts p @ parts q))"

definition py_Path_args :: "string list \<Rightarrow> pypath" where
  "py_Path_args args = foldl joinpath (PyPath False []) (map py_Path args)"

definition lstrip_slash :: "string \<Rightarrow> string" where
  "lstrip_slash s = dropWhile (\<lambda>c. c = CHR ''/'') s"

definition ensure_relative_path :: "string \<Rightarrow> pypath" where
  "ensure_relative_path key =
     (let p = as_posix (py_Path (lstrip_slash key));
          segs = filter (\<lambda>seg. seg \<notin> set [[], ''.'', ''..'']) (split_on CHR ''/'' p)
      in py_Path_args segs)"

text \<open>
  What \<open>Path.resolve\<close> reads from the machine: the working directory, the symbolic links
  (the path of each link and the absolute path it points to), and the size \<open>stat\<close>
  reports for a directory. Absolute paths are lists of components below \<open>/\<close>; a
  component holds no \<open>/\<close>.
\<close>

record env =
  cwd :: "string list"
  links :: "(string list \<times> string list) list"
  dir_st_size :: nat

text \<open>
  \<open>os.path.realpath\<close>: the components are walked from the left; \<open>..\<close> drops the last
  component resolved so far, a component with a NUL byte makes \<open>lstat\<close> raise
  \<open>ValueError\<close>, a component that is a symbolic link is replaced by its target, and
  after \<open>SYMLOOP_MAX\<close> links the walk gives up with the \<open>RuntimeError\<close> Python raises
  for a symlink loop.
\<close>

fun realpath_aux ::
  "nat \<Rightarrow> (string list \<times> string list) list \<Rightarrow> string list \<Rightarrow> string list \<Rightarrow>
   py_error + string list"
where
  "realpath_aux fuel lnks resolved [] = Inr resolved"
| "realpath_aux fuel lnks resolved (seg # rest) =
     (if seg = ''..'' then realpath_aux fuel lnks (butlast resolved) rest
      else if CHR 0x00 \<in> set seg then Inl (ValueError ''embedded null byte'')
      else (case map_of lnks (resolved @ [seg]) of
              None \<Rightarrow> realpath_aux fuel lnks (resolved @ [seg]) rest
            | Some target \<Rightarrow>
                (case fuel of
                   0 \<Rightarrow> Inl RuntimeError
                 | Suc f \<Rightarrow> realpath_aux f lnks [] (target @ rest))))"

definition SYMLOOP_MAX :: nat where
  "SYMLOOP_MAX = 40"

definition resolve :: "env \<Rightarrow> pypath \<Rightarrow> py_error + string list" where
  "resolve e p =
     realpath_aux SYMLOOP_MAX (links e) [] (if is_abs p then parts p else cwd e @ parts p)"

definition str_path :: "string list \<Rightarrow> string" where
  "str_path ps = ''/'' @ join_slash ps"

text \<open>\<open>safe_join\<close>: the test is \<open>str(candidate).startswith(str(root))\<close>, on the two strings.\<close>

definition safe_join :: "env \<Rightarrow> pypath \<Rightarrow> pypath \<Rightarrow> py_error + string list" where
  "safe_join e rootdir rel =
     (case resolve e (joinpath rootdir rel) of
        Inl err \<Rightarrow> Inl err
      | Inr candidate \<Rightarrow>
          (case resolve e rootdir of
             Inl err \<Rightarrow> Inl err
           | Inr rootdir' \<Rightarrow>
               if \<not> prefix (str_path rootdir') (str_path candidate)
               then Inl (ValueError ''Unsafe path join detected'')
               else Inr candidate))"

subsection \<open>The file system and \<open>chunked_download\<close>\<close>

datatype node = File string | Dir

type_synonym fs = "string list \<rightharpoonup> node"

definition st_size :: "env \<Rightarrow> node \<Rightarrow> nat" where
  "st_size e n = (case n of File content \<Rightarrow> length content | Dir \<Rightarrow> dir_st_size e)"

text \<open>
  The answer to the \<open>GET\<close>: the status, the chunks \<open>iter_content\<close> yields, and whether the
  stream breaks (raises) after the last of them.
\<close>

record response =
  status :: nat
  chunks :: "string list"
  broken :: bool

text \<open>
  \<open>mkdir(parents=True, exist_ok=True)\<close>: every missing directory on the way is created;
  a regular file in the way is an error.
\<close>

fun mkdir_chain :: "string list list \<Rightarrow> fs \<Rightarrow> py_error + fs" where
  "mkdir_chain [] f = Inr f"
| "mkdir_chain (q # qs) f =
     (case f q of
        None \<Rightarrow> mkdir_chain qs (f(q \<mapsto> Dir))
      | Some Dir \<Rightarrow> mkdir_chain qs f
      | Some (File _) \<Rightarrow> Inl OSError)"

definition mkdir_parents :: "string list \<Rightarrow> fs \<Rightarrow> py_error + fs" where
  "mkdir_parents p f = mkdir_chain (tl (prefixes p)) f"

text \<open>
  \<open>PurePath.suffix\<close>: the part of the name from its last dot, unless that dot is the
  first or the last character. \<open>with_suffix\<close> replaces it; a path with no name (the
  root) has none to replace.
\<close>

definition py_suffix :: "string \<Rightarrow> string" where
  "py_suffix name =
     (let i = length name - length (takeWhile (\<lambda>c. c \<noteq> CHR ''.'') (rev name)) - 1
      in if CHR ''.'' \<in> set name \<and> 0 < i \<and> i < length name - 1 then drop i name else [])"

definition with_suffix :: "string list \<Rightarrow> string \<Rightarrow> py_error + string list" where
  "with_suffix p sfx =
     (if p = [] then Inl (ValueError ''path has an empty name'')
      else
        let name = last p; old = py_suffix name;
            name' = (if old = [] then name @ sfx
                     else take (length name - length old) name @ sfx)
        in Inr (butlast p @ [name']))"

text \<open>
  The writes of the loop over \<open>iter_content\<close>: the file system after each \<open>f.write\<close>,
  empty chunks being skipped.
\<close>

fun write_chunks :: "string list \<Rightarrow> string \<Rightarrow> string list \<Rightarrow> fs \<Rightarrow> fs list" where
  "write_chunks tmp written [] f = []"
| "write_chunks tmp written (c # cs) f =
     (if c = [] then write_chunks tmp written cs f
      else f(tmp \<mapsto> File (written @ c)) #
           write_chunks tmp (written @ c) cs (f(tmp \<mapsto> File (written @ c))))"

text \<open>
  \<open>chunked_download\<close>: the result, and the file system after each of its effects
  (\<open>mkdir\<close>, \<open>open\<close>, every \<open>write\<close>, \<open>replace\<close>), in order.
\<close>

definition chunked_download ::
  "(py_error + response) \<Rightarrow> string list \<Rightarrow> fs \<Rightarrow> (py_error + unit) \<times> fs list"
where
  "chunked_download got dest f =
     (case mkdir_parents (butlast dest) f of
        Inl e \<Rightarrow> (Inl e, [])
      | Inr f1 \<Rightarrow>
          (case with_suffix dest (py_suffix (last dest) @ ''.part'') of
             Inl e \<Rightarrow> (Inl e, [f1])
           | Inr tmp \<Rightarrow>
               (case got of
                  Inl e \<Rightarrow> (Inl e, [f1])
                | Inr r \<Rightarrow>
                    if 400 \<le> status r then (Inl HTTPError, [f1])
                    else if f1 tmp = Some Dir then (Inl OSError, [f1])
                    else
                      let f2 = f1(tmp \<mapsto> File []);
                          ws = write_chunks tmp [] (chunks r) f2;
                          f3 = last (f2 # ws)
                      in if broken r then (Inl ConnectionError, f1 # f2 # ws)
                         else if f3 dest = Some Dir then (Inl OSError, f1 # f2 # ws)
                         else (Inr (), f1 # f2 # ws @ [f3(dest := f3 tmp, tmp := None)]))))"

subsection \<open>\<open>Downloader.process_job\<close>\<close>

text \<open>
  The lookup call is a function of the job: the parsed body, or the error of the request,
  of \<open>raise_for_status\<close> or of \<open>r.json()\<close>. The transfer is a function of the URL. The
  result comes with the file systems \<open>chunked_download\<close> went through and with the URLs
  that were fetched.
\<close>

definition process_job ::
  "env \<Rightarrow> (job \<Rightarrow> py_error + json) \<Rightarrow> (json \<Rightarrow> py_error + response) \<Rightarrow> pypath \<Rightarrow> job \<Rightarrow> fs \<Rightarrow>
   (py_error + unit) \<times> fs list \<times> json list"
where
  "process_job e http_post http_get output_dir j f =
     (case http_post j of
        Inl err \<Rightarrow> (Inl err, [], [])
      | Inr (JDict info) \<Rightarrow>
          let key = py_get info ''key''; url = py_get info ''url''
          in if \<not> truthy key \<or> \<not> truthy url
             then (Inl (ValueError ''Malformed response from API''), [], [])
             else (case key of
                     JStr k \<Rightarrow>
                       (case safe_join e output_dir (ensure_relative_path k) of
                          Inl err \<Rightarrow> (Inl err, [], [])
                        | Inr dest \<Rightarrow>
                            if (case f dest of None \<Rightarrow> False | Some n \<Rightarrow> 0 < st_size e n)
                            then (Inr (), [], [])
                            else (let (res, trace) = chunked_download (http_get url) dest f
                                  in (res, trace, [url])))
                   | _ \<Rightarrow> (Inl AttributeError, [], []))
      | Inr _ \<Rightarrow> (Inl AttributeError, [], []))"

subsection \<open>Machines, transfers and resolvers used as instances\<close>

text \<open>
  Three machines: one with a link outside the output root, one with a link below the
  output root \<open>/data/out\<close> that points to \<open>/etc\<close>, and one with a link below it that
  points to the sibling directory \<open>/data/out-evil\<close>.
\<close>

definition plain_env :: env where
  "plain_env = \<lparr>cwd = [''srv''], links = [([''srv'', ''latest''], [''srv'', ''downloads''])],
                 dir_st_size = 4096\<rparr>"

definition linked_env :: env where
  "linked_env = \<lparr>cwd = [''srv''], links = [([''data'', ''out'', ''l''], [''etc''])],
                  dir_st_size = 4096\<rparr>"

definition sibling_env :: env where
  "sibling_env = \<lparr>cwd = [''srv''], links = [([''data'', ''out'', ''l''], [''data'', ''out-evil''])],
                   dir_st_size = 4096\<rparr>"

definition data_out :: pypath where
  "data_out = PyPath True [''data'', ''out'']"

text \<open>
  The temporary sibling in the specification's words: the destination with \<open>.part\<close>
  appended to its name.
\<close>

definition part_name :: "string list \<Rightarrow> string list" where
  "part_name dest = butlast dest @ [last dest @ ''.part'']"

text \<open>
  A destination below \<open>/data/out\<close>, a transfer that delivers \<open>ab\<close>, an empty chunk and
  \<open>c\<close>, and the same transfer breaking after the last chunk.
\<close>

definition h5_dest :: "string list" where
  "h5_dest = [''data'', ''out'', ''a.h5'']"

definition good_get :: "py_error + response" where
  "good_get = Inr \<lparr>status = 200, chunks = [''ab'', [], ''c''], broken = False\<rparr>"

definition broken_get :: "py_error + response" where
  "broken_get = Inr \<lparr>status = 200, chunks = [''ab'', [], ''c''], broken = True\<rparr>"

text \<open>
  A resolver that answers every job with the storage key \<open>..\<close>, one that answers with
  the key \<open>2023/a.h5\<close>, and a transfer that delivers \<open>abc\<close> for every URL.
\<close>

definition dotdot_post :: "job \<Rightarrow> py_error + json" where
  "dotdot_post j = Inr (JDict [(''key'', JStr ''..''), (''url'', JStr ''https://s3/x'')])"

definition h5_post :: "job \<Rightarrow> py_error + json" where
  "h5_post j = Inr (JDict [(''key'', JStr ''2023/a.h5''), (''url'', JStr ''https://s3/x'')])"

definition abc_get :: "json \<Rightarrow> py_error + response" where
  "abc_get url = Inr \<lparr>status = 200, chunks = [''abc''], broken = False\<rparr>"

section \<open>Properties\<close>

subsection \<open>Reconnection backoff\<close>

lemma run_forever_loop_length:
  "\<forall>a \<in> set attempts. \<not> stop_at_head a \<and> \<not> stop_after a \<Longrightarrow>
   length (run_forever_loop b attempts) = length attempts"
  by (induction attempts arbitrary: b) simp_all

lemma run_forever_loop_nth:
  "\<forall>a \<in> set attempts. \<not> stop_at_head a \<and> \<not> stop_after a \<Longrightarrow>
   n < length attempts \<Longrightarrow> 0 \<le> b \<Longrightarrow> b \<le> 30 \<Longrightarrow>
   run_forever_loop b attempts ! n = min (b * 2 ^ n) 30"
proof (induction attempts arbitrary: b n)
  case Nil
  then show ?case by simp
next
  case (Cons a rest)
  show ?case
  proof (cases n)
    case 0
    with Cons.prems show ?thesis by simp
  next
    case (Suc m)
    let ?b' = "min (b * 2) 30"
    have step: "run_forever_loop b (a # rest) ! n = run_forever_loop ?b' rest ! m"
      using Cons.prems Suc by (simp add: BACKOFF_MAX_def)
    have ih: "run_forever_loop ?b' rest ! m = min (?b' * 2 ^ m) 30"
      using Cons.prems Suc by (intro Cons.IH) auto
    have pow: "(1::real) \<le> 2 ^ m" by simp
    have "min (?b' * 2 ^ m) 30 = min (b * 2 ^ n) 30"
    proof (cases "b * 2 \<le> 30")
      case True
      then show ?thesis using Suc by (simp add: min_def mult.assoc)
    next
      case False
      then have big: "30 < b * 2" by simp
      have e: "?b' = 30" using big by simp
      have "(30::real) \<le> 30 * 2 ^ m" using pow by linarith
      then have l: "min (?b' * 2 ^ m) 30 = 30" unfolding e by (rule min_absorb2)
      have "b \<le> b * 2 ^ m" using mult_left_mono [OF pow Cons.prems(3)] by simp
      with big have "30 < 2 * (b * 2 ^ m)" by linarith
      then have "30 < b * 2 ^ n" using Suc by simp
      then have r: "min (b * 2 ^ n) 30 = 30" by (intro min_absorb2) simp
      from l r show ?thesis by simp
    qed
    with step ih show ?thesis by simp
  qed
qed

text \<open>
  C6. For every \<open>K \<ge> 1\<close>: when the first \<open>K\<close> connections of the listener all ended
  with the stop signal unset, the \<open>K\<close>-th wait before reconnecting is
  \<open>min(1 * 2^(K-1), 30)\<close> seconds, and it lies between the floor of 1 second and the cap
  of 30 seconds.
\<close>

theorem backoff_after_K_failures:
  assumes "1 \<le> K" and "K \<le> length attempts"
    and "\<forall>a \<in> set (take K attempts). \<not> stop_at_head a \<and> \<not> stop_after a"
  shows "run_forever attempts ! (K - 1) = min (1 * 2 ^ (K - 1)) 30 \<and>
         BACKOFF_MIN \<le> run_forever attempts ! (K - 1) \<and>
         run_forever attempts ! (K - 1) \<le> BACKOFF_MAX"
proof -
  have split: "attempts = take K attempts @ drop K attempts" by simp
  have app: "run_forever_loop b (xs @ ys) ! n = run_forever_loop b xs ! n"
    if "\<forall>a \<in> set xs. \<not> stop_at_head a \<and> \<not> stop_after a" and "n < length xs"
    for b n xs ys
    using that
  proof (induction xs arbitrary: b n)
    case Nil
    then show ?case by simp
  next
    case (Cons x xs)
    then show ?case by (cases n) simp_all
  qed
  have len: "K - 1 < length (take K attempts)" using assms(1,2) by simp
  have "run_forever attempts ! (K - 1) = run_forever_loop 1 (take K attempts) ! (K - 1)"
    unfolding run_forever_def BACKOFF_MIN_def
    using app [OF assms(3) len, of 1 "drop K attempts"] by simp
  also have "\<dots> = min (1 * 2 ^ (K - 1)) 30"
    using run_forever_loop_nth [OF assms(3) len, of 1] by simp
  finally have eq: "run_forever attempts ! (K - 1) = min (1 * 2 ^ (K - 1)) 30" .
  have "(1::real) \<le> 2 ^ (K - 1)" by simp
  with eq show ?thesis by (simp add: BACKOFF_MIN_def BACKOFF_MAX_def min_def)
qed

theorem backoff_after_K_failures_witness:
  "run_forever (replicate 7 \<lparr>stop_at_head = False, ended = Raised_exception, stop_after = False\<rparr>) ! 5
     = 30 \<and>
   run_forever [\<lparr>stop_at_head = False, ended = Returned, stop_after = False\<rparr>,
                \<lparr>stop_at_head = False, ended = Raised_exception, stop_after = False\<rparr>,
                \<lparr>stop_at_head = False, ended = Returned, stop_after = False\<rparr>] ! 2 = 4"
  using backoff_after_K_failures
      [of 6 "replicate 7 \<lparr>stop_at_head = False, ended = Raised_exception, stop_after = False\<rparr>"]
    backoff_after_K_failures
      [of 3 "[\<lparr>stop_at_head = False, ended = Returned, stop_after = False\<rparr>,
              \<lparr>stop_at_head = False, ended = Raised_exception, stop_after = False\<rparr>,
              \<lparr>stop_at_head = False, ended = Returned, stop_after = False\<rparr>]"]
  by simp

subsection \<open>Event extraction\<close>

lemma extract_events_wrapped:
  "wraps_event obj d \<Longrightarrow> extract_events (JDict obj) = [d]"
  by (auto simp: wraps_event_def py_in_def)

lemma extract_events_bare:
  "\<not> (\<exists>d. wraps_event obj d) \<Longrightarrow> extract_events (JDict obj) = [obj]"
  by (auto simp: wraps_event_def py_in_def split: option.splits json.splits)

lemma extract_events_array:
  "map JDict (extract_events (JList items)) = filter is_object items"
proof (induction items)
  case Nil
  show ?case by simp
next
  case (Cons item items)
  then show ?case by (cases item) simp_all
qed

lemma extract_events_other:
  "\<not> is_object v \<Longrightarrow> \<not> is_array v \<Longrightarrow> extract_events v = []"
  by (cases v) simp_all

text \<open>
  C9. Every parsed JSON value yields exactly: the nested object when the value is an
  object wrapping a nested object with a recognizable event field (\<open>productType\<close> or
  \<open>time\<close>); the object itself when it is an object of any other shape; its object
  members, in order, when it is an array; nothing for any other value.
\<close>

theorem extract_events_shapes:
  "(wraps_event obj d \<longrightarrow> extract_events (JDict obj) = [d]) \<and>
   (\<not> (\<exists>d'. wraps_event obj d') \<longrightarrow> extract_events (JDict obj) = [obj]) \<and>
   map JDict (extract_events (JList items)) = filter is_object items \<and>
   (\<not> is_object v \<and> \<not> is_array v \<longrightarrow> extract_events v = [])"
  using extract_events_wrapped extract_events_bare extract_events_array
    extract_events_other
  by blast

theorem extract_events_shapes_witness:
  "wraps_event [(''data'', JDict [(''time'', JInt 5)])] [(''time'', JInt 5)] \<and>
   extract_events (JDict [(''data'', JDict [(''time'', JInt 5)])]) = [[(''time'', JInt 5)]] \<and>
   \<not> (\<exists>d'. wraps_event [(''productType'', JStr ''VMI'')] d') \<and>
   extract_events (JDict [(''productType'', JStr ''VMI'')]) = [[(''productType'', JStr ''VMI'')]] \<and>
   extract_events (JList [JInt 1, JDict [(''time'', JInt 5)], JNull]) = [[(''time'', JInt 5)]] \<and>
   \<not> is_object (JStr ''x'') \<and> \<not> is_array (JStr ''x'') \<and> extract_events (JStr ''x'') = []"
  using extract_events_shapes
    [of "[(''data'', JDict [(''time'', JInt 5)])]" "[(''time'', JInt 5)]"
        "[JInt 1, JDict [(''time'', JInt 5)], JNull]" "JStr ''x''"]
    extract_events_shapes [of "[(''productType'', JStr ''VMI'')]"]
  by (simp add: wraps_event_def)

subsection \<open>The event handler and the dedup cache\<close>

lemma on_ws_event_products: "products (snd (on_ws_event now ev a)) = products a"
  by (simp add: on_ws_event_def put_nowait_def Let_def split: sum.splits option.splits)

lemma on_ws_event_keeps:
  "dedup a k = Some t \<Longrightarrow> dedup (snd (on_ws_event now ev a)) k = Some t"
  by (auto simp: on_ws_event_def put_nowait_def Let_def split: sum.splits option.splits)

lemma on_ws_event_duplicate:
  "validate_event (products a) ev = Inr j \<Longrightarrow> dedup a (job_key j) = Some t \<Longrightarrow>
   on_ws_event now ev a = (Duplicate, a)"
  by (auto simp: on_ws_event_def)

lemma validate_event_placed:
  "validate_event allow ev = Inl out \<Longrightarrow> placed out = []"
  by (auto simp: validate_event_def Let_def split: sum.splits if_splits)

lemma on_ws_event_known_key:
  "dedup a k = Some t \<Longrightarrow> placed_with_key k [fst (on_ws_event now ev a)] = 0"
  by (auto simp: on_ws_event_def placed_with_key_def put_nowait_def Let_def validate_event_placed
      split: sum.splits option.splits)

lemma on_ws_event_new:
  "validate_event (products a) ev = Inr j \<Longrightarrow> job_key j \<notin> dom (dedup a) \<Longrightarrow>
   dedup (snd (on_ws_event now ev a)) (job_key j) = Some now \<and>
   placed_with_key (job_key j) [fst (on_ws_event now ev a)] =
     (if length (jobs a) < JOBS_MAXSIZE then 1 else 0)"
  by (auto simp: on_ws_event_def placed_with_key_def put_nowait_def Let_def)

lemma step_products: "products (snd (step x a)) = products a"
  by (cases x) (simp_all add: on_ws_event_products gc_sweep_def worker_step_def main_step_def
      Let_def case_prod_beta split: wstate.splits list.splits mstate.splits)

lemma step_keeps:
  "dedup a k = Some t \<Longrightarrow> in_window t x \<Longrightarrow> dedup (snd (step x a)) k = Some t"
  by (cases x) (simp_all add: on_ws_event_keeps gc_sweep_def worker_step_def main_step_def
      Let_def case_prod_beta split: wstate.splits list.splits mstate.splits)

lemma step_known_key:
  assumes "dedup a k = Some t"
  shows "placed_with_key k (fst (step x a)) = 0"
proof (cases x)
  case (Event now ev)
  then show ?thesis
    using on_ws_event_known_key [OF assms, of now ev]
    by (simp add: case_prod_beta) (simp add: placed_with_key_def)
qed (simp_all add: placed_with_key_def)

lemma placed_with_key_append:
  "placed_with_key k (xs @ ys) = placed_with_key k xs + placed_with_key k ys"
  by (simp add: placed_with_key_def)

lemma run_known_key:
  "dedup a k = Some t \<Longrightarrow> \<forall>x \<in> set xs. in_window t x \<Longrightarrow>
   products (snd (run xs a)) = products a \<and>
   dedup (snd (run xs a)) k = Some t \<and>
   placed_with_key k (fst (run xs a)) = 0"
proof (induction xs arbitrary: a)
  case Nil
  then show ?case by (simp add: placed_with_key_def)
next
  case (Cons x xs)
  obtain outs a' where s: "step x a = (outs, a')" by (cases "step x a")
  have k: "dedup a' k = Some t" and p: "products a' = products a"
    and z: "placed_with_key k outs = 0"
    using step_keeps [of a k t x] step_products [of x a] step_known_key [of a k t x] s Cons.prems
    by simp_all
  have "run (x # xs) a = (outs @ fst (run xs a'), snd (run xs a'))"
    using s by (simp add: case_prod_beta)
  with Cons.IH [OF k] Cons.prems(2) p z show ?case
    by (simp add: placed_with_key_append)
qed

lemma vmi_key_not_in_full_app: "job_key vmi_job \<notin> dom (dedup full_app)"
proof -
  have "job_key vmi_job \<noteq> job_key (sri_job i)" for i
    by (simp add: job_key_def vmi_job_def sri_job_def)
  then show ?thesis by (auto simp: full_app_def dom_def)
qed

lemma products_fresh_app: "products fresh_app = {''VMI'', ''SRI'', ''TEMP''}"
  by (simp add: fresh_app_def App_init_def py_strip_def py_upper_def upper_char_def is_space_def)

lemma validate_vmi_event:
  "validate_event {''VMI'', ''SRI'', ''TEMP''} vmi_event = Inr vmi_job"
  by (simp add: vmi_event_def vmi_job_def validate_event_def event_product_type_def
      event_epoch_ms_def py_or_def py_get_def py_strip_def py_upper_def upper_char_def
      is_space_def)

text \<open>
  C1 (as amended). Let an event that passes validation and the allowlist be presented to
  the handler while its identity key is not in the dedup cache, and let a second event
  with the same identity key be presented later, every sweep in between running within
  the retention window of the first presentation. Whatever the workers, the sweep, the
  main thread and other events do in between: the second presentation returns
  \<open>Duplicate\<close> with the state unchanged, and the number of jobs with that identity key
  placed on the queue over the whole run is one when the queue had room at the first
  presentation, and zero when it was full.
\<close>

theorem dedup_at_most_one_job:
  assumes "validate_event (products a) ev1 = Inr j1"
    and "validate_event (products a) ev2 = Inr j2"
    and "job_key j2 = job_key j1"
    and "job_key j1 \<notin> dom (dedup a)"
    and "\<forall>x \<in> set between. in_window t1 x"
  shows "on_ws_event t2 ev2 (snd (run between (snd (on_ws_event t1 ev1 a)))) =
           (Duplicate, snd (run between (snd (on_ws_event t1 ev1 a)))) \<and>
         placed_with_key (job_key j1)
           (fst (on_ws_event t1 ev1 a) # fst (run between (snd (on_ws_event t1 ev1 a))) @
            [fst (on_ws_event t2 ev2 (snd (run between (snd (on_ws_event t1 ev1 a)))))]) =
           (if length (jobs a) < JOBS_MAXSIZE then 1 else 0)"
proof -
  let ?a1 = "snd (on_ws_event t1 ev1 a)"
  let ?a2 = "snd (run between ?a1)"
  have first: "dedup ?a1 (job_key j1) = Some t1"
    and count1: "placed_with_key (job_key j1) [fst (on_ws_event t1 ev1 a)] =
      (if length (jobs a) < JOBS_MAXSIZE then 1 else 0)"
    using on_ws_event_new [OF assms(1,4)] by simp_all
  have p1: "products ?a1 = products a" by (rule on_ws_event_products)
  have mid: "products ?a2 = products ?a1" "dedup ?a2 (job_key j1) = Some t1"
    "placed_with_key (job_key j1) (fst (run between ?a1)) = 0"
    using run_known_key [OF first assms(5)] by simp_all
  have v2: "validate_event (products ?a2) ev2 = Inr j2" using assms(2) mid(1) p1 by simp
  have second: "on_ws_event t2 ev2 ?a2 = (Duplicate, ?a2)"
    using on_ws_event_duplicate [OF v2] mid(2) assms(3) by simp
  have "placed_with_key (job_key j1)
     ([fst (on_ws_event t1 ev1 a)] @ fst (run between ?a1) @ [fst (on_ws_event t2 ev2 ?a2)]) =
     (if length (jobs a) < JOBS_MAXSIZE then 1 else 0)"
    unfolding placed_with_key_append using count1 mid(3) second
    by (simp add: placed_with_key_def)
  with second show ?thesis by simp
qed

theorem dedup_at_most_one_job_witness:
  "validate_event (products fresh_app) vmi_event = Inr vmi_job \<and>
   job_key vmi_job \<notin> dom (dedup fresh_app) \<and>
   in_window 0 (Worker 0) \<and> in_window 0 (Sweep 5) \<and>
   on_ws_event 10 vmi_event
       (snd (run [Worker 0, Sweep 5, Worker 0] (snd (on_ws_event 0 vmi_event fresh_app)))) =
     (Duplicate, snd (run [Worker 0, Sweep 5, Worker 0] (snd (on_ws_event 0 vmi_event fresh_app)))) \<and>
   placed_with_key (job_key vmi_job)
     (fst (on_ws_event 0 vmi_event fresh_app) #
      fst (run [Worker 0, Sweep 5, Worker 0] (snd (on_ws_event 0 vmi_event fresh_app))) @
      [fst (on_ws_event 10 vmi_event
         (snd (run [Worker 0, Sweep 5, Worker 0] (snd (on_ws_event 0 vmi_event fresh_app)))))]) = 1"
proof -
  have v: "validate_event (products fresh_app) vmi_event = Inr vmi_job"
    by (simp add: products_fresh_app validate_vmi_event)
  have f: "job_key vmi_job \<notin> dom (dedup fresh_app)"
    by (simp add: fresh_app_def App_init_def)
  have w: "\<forall>x \<in> set [Worker 0, Sweep 5, Worker 0]. in_window 0 x" by simp
  have room: "length (jobs fresh_app) < JOBS_MAXSIZE"
    by (simp add: fresh_app_def App_init_def JOBS_MAXSIZE_def)
  have iw: "in_window 0 (Worker 0)" "in_window 0 (Sweep 5)" by simp_all
  note th = dedup_at_most_one_job [OF v v refl f w, of 10]
  have c: "(if length (jobs fresh_app) < JOBS_MAXSIZE then 1 else 0) = (1::nat)"
    using room by simp
  from v f iw th [unfolded c] show ?thesis by (intro conjI) (erule conjunct1 conjunct2 | assumption)+
qed

text \<open>
  C1 as stated fails when the queue is full at the first presentation: the key is
  recorded, the job is dropped, the second presentation is a duplicate, and no job with
  that key is ever placed on the queue.
\<close>

theorem dedup_exactly_one_counterexample:
  "validate_event (products full_app) vmi_event = Inr vmi_job \<and>
   job_key vmi_job \<notin> dom (dedup full_app) \<and>
   fst (on_ws_event 0 vmi_event full_app) = Dropped vmi_job \<and>
   fst (on_ws_event 10 vmi_event (snd (on_ws_event 0 vmi_event full_app))) = Duplicate \<and>
   placed_with_key (job_key vmi_job)
     [fst (on_ws_event 0 vmi_event full_app),
      fst (on_ws_event 10 vmi_event (snd (on_ws_event 0 vmi_event full_app)))] = 0"
proof -
  have v: "validate_event (products full_app) vmi_event = Inr vmi_job"
    by (simp add: full_app_def products_fresh_app validate_vmi_event)
  have f: "job_key vmi_job \<notin> dom (dedup full_app)"
    by (rule vmi_key_not_in_full_app)
  have d: "on_ws_event 0 vmi_event full_app =
      (Dropped vmi_job, full_app\<lparr>dedup := (dedup full_app)(job_key vmi_job \<mapsto> 0)\<rparr>)"
    using v f by (simp add: on_ws_event_def put_nowait_def JOBS_MAXSIZE_def full_app_def)
  have e: "on_ws_event 10 vmi_event (full_app\<lparr>dedup := (dedup full_app)(job_key vmi_job \<mapsto> 0)\<rparr>) =
      (Duplicate, full_app\<lparr>dedup := (dedup full_app)(job_key vmi_job \<mapsto> 0)\<rparr>)"
    using v by (simp add: on_ws_event_def)
  show ?thesis using v f d e by (simp add: placed_with_key_def)
qed

text \<open>
  C7. When the queue holds \<open>JOBS_MAXSIZE\<close> jobs and an event passes validation, the
  allowlist and the dedup check, the handler returns at once with the job dropped, the
  queue untouched and the identity key recorded with the current time; a later event with
  the same identity key is then a duplicate and changes nothing.
\<close>

theorem queue_full_drops_and_dedups:
  assumes "validate_event (products a) ev = Inr j"
    and "job_key j \<notin> dom (dedup a)"
    and "length (jobs a) = JOBS_MAXSIZE"
    and "validate_event (products a) ev' = Inr j'"
    and "job_key j' = job_key j"
  shows "on_ws_event now ev a = (Dropped j, a\<lparr>dedup := (dedup a)(job_key j \<mapsto> now)\<rparr>) \<and>
         on_ws_event later ev' (a\<lparr>dedup := (dedup a)(job_key j \<mapsto> now)\<rparr>) =
           (Duplicate, a\<lparr>dedup := (dedup a)(job_key j \<mapsto> now)\<rparr>)"
  using assms by (simp add: on_ws_event_def put_nowait_def)

theorem queue_full_drops_and_dedups_witness:
  "validate_event (products full_app) vmi_event = Inr vmi_job \<and>
   job_key vmi_job \<notin> dom (dedup full_app) \<and>
   length (jobs full_app) = JOBS_MAXSIZE \<and>
   on_ws_event 0 vmi_event full_app =
     (Dropped vmi_job, full_app\<lparr>dedup := (dedup full_app)(job_key vmi_job \<mapsto> 0)\<rparr>) \<and>
   on_ws_event 10 vmi_event (full_app\<lparr>dedup := (dedup full_app)(job_key vmi_job \<mapsto> 0)\<rparr>) =
     (Duplicate, full_app\<lparr>dedup := (dedup full_app)(job_key vmi_job \<mapsto> 0)\<rparr>)"
proof -
  have v: "validate_event (products full_app) vmi_event = Inr vmi_job"
    by (simp add: full_app_def products_fresh_app validate_vmi_event)
  have f: "job_key vmi_job \<notin> dom (dedup full_app)"
    by (rule vmi_key_not_in_full_app)
  have l: "length (jobs full_app) = JOBS_MAXSIZE"
    by (simp add: full_app_def JOBS_MAXSIZE_def)
  show ?thesis
    using v f l queue_full_drops_and_dedups [OF v f l v refl, of 0 10] by simp
qed

text \<open>
  C8, where the code departs from it. An event whose time is \<open>Infinity\<close> passes the
  \<open>isinstance\<close> check and \<open>int(epoch_ms)\<close> raises \<open>OverflowError\<close>; an event whose product
  type is a number raises \<open>AttributeError\<close> at \<open>.upper()\<close>. Neither touches the state, but
  the exception leaves the handler.
\<close>

theorem on_ws_event_raises:
  "on_ws_event now infinite_time_event fresh_app = (Raised OverflowError, fresh_app) \<and>
   on_ws_event now numeric_type_event fresh_app = (Raised AttributeError, fresh_app)"
  by (simp add: on_ws_event_def products_fresh_app infinite_time_event_def numeric_type_event_def
      validate_event_def event_product_type_def event_epoch_ms_def py_or_def py_get_def
      py_strip_def py_upper_def upper_char_def is_space_def)

subsection \<open>Shutdown\<close>

lemma filter_update_count:
  "i < length ws \<Longrightarrow>
   length (filter P (ws[i := w])) + (if P (ws ! i) then 1 else 0) =
   length (filter P ws) + (if P w then 1 else 0)"
proof (induction ws arbitrary: i)
  case Nil
  then show ?case by simp
next
  case (Cons x xs)
  then show ?case by (cases i) auto
qed

lemma not_in_update:
  "v \<notin> set ws \<Longrightarrow> w \<noteq> v \<Longrightarrow> v \<notin> set (ws[i := w])"
  using set_update_subset_insert [of ws i w] by auto

lemma on_ws_event_queue:
  "stop_event (snd (on_ws_event now ev a)) = stop_event a \<and>
   workers (snd (on_ws_event now ev a)) = workers a \<and>
   main_thread (snd (on_ws_event now ev a)) = main_thread a \<and>
   prefix (jobs a) (jobs (snd (on_ws_event now ev a))) \<and>
   (accounted a \<longrightarrow> accounted (snd (on_ws_event now ev a)))"
  by (auto simp: on_ws_event_def put_nowait_def accounted_def Let_def
      split: sum.splits option.splits)

lemma worker_step_stopped:
  assumes "stopped a"
  shows "stopped (worker_step i a) \<and> jobs (worker_step i a) = jobs a"
proof (cases "i < length (workers a)")
  case False
  with assms show ?thesis by (simp add: worker_step_def)
next
  case True
  show ?thesis
  proof (cases "workers a ! i")
    case At_loop_head
    have "length (filter processing ((workers a)[i := Worker_exited])) =
          length (filter processing (workers a))"
      using filter_update_count [OF True, of processing Worker_exited] At_loop_head by simp
    with assms True At_loop_head show ?thesis
      by (simp add: worker_step_def stopped_def accounted_def not_in_update)
  next
    case In_get
    with assms True show ?thesis
      using nth_mem [OF True] by (simp add: stopped_def)
  next
    case (Processing j)
    have c: "length (filter processing ((workers a)[i := At_loop_head])) + 1 =
          length (filter processing (workers a))"
      using filter_update_count [OF True, of processing At_loop_head] Processing by simp
    have w: "worker_step i a =
        a\<lparr>unfinished_tasks := unfinished_tasks a - 1, workers := (workers a)[i := At_loop_head]\<rparr>"
      using True Processing by (simp add: worker_step_def)
    have n: "In_get \<notin> set ((workers a)[i := At_loop_head])"
      using assms by (simp add: stopped_def not_in_update)
    have "length (jobs a) + length (filter processing ((workers a)[i := At_loop_head]))
          \<le> unfinished_tasks a - 1"
      using assms c by (simp add: stopped_def accounted_def) linarith
    with assms n show ?thesis unfolding w by (simp add: stopped_def accounted_def)
  next
    case Worker_exited
    with assms True show ?thesis by (simp add: worker_step_def)
  qed
qed

lemma step_stopped:
  assumes "stopped a"
  shows "stopped (snd (step x a)) \<and> prefix (jobs a) (jobs (snd (step x a)))"
proof (cases x)
  case (Event now ev)
  have "jobs (snd (on_ws_event now ev a)) \<noteq> []"
    using on_ws_event_queue [of now ev a] assms by (auto simp: stopped_def)
  with Event assms on_ws_event_queue [of now ev a] show ?thesis
    by (simp add: case_prod_beta stopped_def)
next
  case (Sweep now)
  with assms show ?thesis by (simp add: stopped_def)
next
  case (Worker i)
  with worker_step_stopped [OF assms, of i] show ?thesis by simp
next
  case Signal
  with assms show ?thesis by (simp add: stopped_def accounted_def)
next
  case Main_step
  have "0 < unfinished_tasks a"
    using assms by (cases "jobs a") (simp_all add: stopped_def accounted_def)
  with Main_step assms show ?thesis
    by (simp add: main_step_def stopped_def accounted_def split: mstate.splits)
qed

text \<open>
  C4, where the code departs from it. Once \<open>stop_event\<close> is set and no worker is inside
  \<open>get\<close>, every worker that reaches the loop head leaves the loop, so the jobs still in
  the queue stay there whatever happens next, their count keeps \<open>unfinished_tasks\<close>
  above zero, and the main thread never returns from \<open>self.jobs.join()\<close>.
\<close>

theorem stopped_workers_never_drain:
  assumes "stopped a"
  shows "main_thread (snd (run sched a)) \<noteq> Main_exited \<and>
         prefix (jobs a) (jobs (snd (run sched a)))"
  using assms
proof (induction sched arbitrary: a)
  case Nil
  then show ?case by (simp add: stopped_def)
next
  case (Cons x xs)
  have s: "stopped (snd (step x a))" and p: "prefix (jobs a) (jobs (snd (step x a)))"
    using step_stopped [OF Cons.prems] by simp_all
  have "run (x # xs) a = (fst (step x a) @ fst (run xs (snd (step x a))), snd (run xs (snd (step x a))))"
    by (simp add: case_prod_beta)
  with Cons.IH [OF s] p show ?case by (auto intro: prefix_order.trans)
qed

lemma shutdown_after_signal:
  "snd (run [Signal] shutdown_app) = shutdown_app\<lparr>stop_event := True\<rparr>"
  by simp

theorem stopped_workers_never_drain_witness:
  "stopped (shutdown_app\<lparr>stop_event := True\<rparr>) \<and>
   main_thread (snd (run [Worker 0, Worker 0, Main_step, Main_step, Worker 0]
       (shutdown_app\<lparr>stop_event := True\<rparr>))) \<noteq> Main_exited \<and>
   prefix [\<lparr>productType = ''SRI'', productDate = 1700000300000\<rparr>]
     (jobs (snd (run [Worker 0, Worker 0, Main_step, Main_step, Worker 0]
       (shutdown_app\<lparr>stop_event := True\<rparr>))))"
proof -
  have s: "stopped (shutdown_app\<lparr>stop_event := True\<rparr>)"
    by (simp add: stopped_def accounted_def shutdown_app_def App_init_def)
  have j: "jobs (shutdown_app\<lparr>stop_event := True\<rparr>) =
      [\<lparr>productType = ''SRI'', productDate = 1700000300000\<rparr>]"
    by (simp add: shutdown_app_def)
  from s stopped_workers_never_drain [OF s, of "[Worker 0, Worker 0, Main_step, Main_step, Worker 0]",
      unfolded j]
  show ?thesis by (intro conjI) (erule conjunct1 conjunct2 | assumption)+
qed

text \<open>
  The handler never reads \<open>stop_event\<close>: an event delivered after the signal, while the
  connection is still open, is enqueued like any other.
\<close>

lemma fresh_app_fields:
  "dedup fresh_app = Map.empty" "jobs fresh_app = []" "main_thread fresh_app = Listening"
  by (simp_all add: fresh_app_def App_init_def)

theorem event_accepted_after_signal:
  "fst (run [Signal, Event 5 vmi_event] fresh_app) = [Enqueued vmi_job]"
proof -
  have "validate_event (products (fresh_app\<lparr>stop_event := True\<rparr>)) vmi_event = Inr vmi_job"
    by (simp add: products_fresh_app validate_vmi_event)
  then have "fst (on_ws_event 5 vmi_event (fresh_app\<lparr>stop_event := True\<rparr>)) = Enqueued vmi_job"
    by (simp add: on_ws_event_def put_nowait_def JOBS_MAXSIZE_def fresh_app_fields
        utc_in_range_def vmi_job_def)
  then show ?thesis by (simp add: fresh_app_fields case_prod_beta)
qed

subsection \<open>Path containment\<close>

lemma split_on_nonempty: "split_on c s \<noteq> []"
  by (induction s) (auto split: list.splits)

lemma split_on_free: "w \<in> set (split_on c s) \<Longrightarrow> c \<notin> set w"
proof (induction s arbitrary: w)
  case Nil
  then show ?case by simp
next
  case (Cons x xs)
  then show ?case
    by (cases "split_on c xs") (auto split: if_splits)
qed

lemma split_on_single: "c \<notin> set s \<Longrightarrow> split_on c s = [s]"
  by (induction s) (auto split: list.splits)

lemma py_Path_segment:
  assumes "CHR ''/'' \<notin> set seg" and "seg \<noteq> []" and "seg \<noteq> ''.''"
  shows "py_Path seg = PyPath False [seg]"
proof -
  have "split_on CHR ''/'' seg = [seg]" using assms(1) by (rule split_on_single)
  moreover have "hd seg \<noteq> CHR ''/''" using assms(1,2) by (cases seg) auto
  ultimately show ?thesis using assms(2,3) by (cases seg) (simp_all add: py_Path_def)
qed

lemma foldl_joinpath_segments:
  "\<forall>seg \<in> set segs. CHR ''/'' \<notin> set seg \<and> seg \<noteq> [] \<and> seg \<noteq> ''.'' \<Longrightarrow>
   foldl joinpath (PyPath b acc) (map py_Path segs) = PyPath b (acc @ segs)"
proof (induction segs arbitrary: acc)
  case Nil
  show ?case by simp
next
  case (Cons seg segs)
  have "py_Path seg = PyPath False [seg]" using Cons.prems by (intro py_Path_segment) simp_all
  then have "joinpath (PyPath b acc) (py_Path seg) = PyPath b (acc @ [seg])"
    by (simp add: joinpath_def)
  with Cons.IH [of "acc @ [seg]"] Cons.prems show ?case by simp
qed

lemma ensure_relative_path_parts:
  "ensure_relative_path key =
     PyPath False (filter (\<lambda>seg. seg \<notin> set [[], ''.'', ''..''])
        (split_on CHR ''/'' (as_posix (py_Path (lstrip_slash key)))))"
proof -
  let ?segs = "filter (\<lambda>seg. seg \<notin> set [[], ''.'', ''..''])
        (split_on CHR ''/'' (as_posix (py_Path (lstrip_slash key))))"
  have "\<forall>seg \<in> set ?segs. CHR ''/'' \<notin> set seg \<and> seg \<noteq> [] \<and> seg \<noteq> ''.''"
    using split_on_free by auto
  from foldl_joinpath_segments [OF this, of False "[]"] show ?thesis
    by (simp add: ensure_relative_path_def py_Path_args_def Let_def)
qed

lemma ensure_relative_path_clean:
  "\<not> is_abs (ensure_relative_path key) \<and>
   [] \<notin> set (parts (ensure_relative_path key)) \<and>
   ''.'' \<notin> set (parts (ensure_relative_path key)) \<and>
   ''..'' \<notin> set (parts (ensure_relative_path key))"
  by (simp add: ensure_relative_path_parts)

lemma realpath_aux_append:
  "realpath_aux f lnks d xs = Inr r \<Longrightarrow>
   \<exists>f'. \<forall>ys. realpath_aux f lnks d (xs @ ys) = realpath_aux f' lnks r ys"
proof (induction f lnks d xs rule: realpath_aux.induct)
  case (1 fuel lnks resolved)
  then show ?case by auto
next
  case (2 fuel lnks resolved seg rest)
  show ?case
  proof (cases "seg = ''..''")
    case True
    with 2 show ?thesis by simp
  next
    case False
    show ?thesis
    proof (cases "CHR 0x00 \<in> set seg")
      case True
      with 2 False show ?thesis by simp
    next
      case nul: False
      show ?thesis
      proof (cases "map_of lnks (resolved @ [seg])")
        case None
        with 2 False nul show ?thesis by simp
      next
        case (Some target)
        show ?thesis
        proof (cases fuel)
          case 0
          with 2 False nul Some show ?thesis by simp
        next
          case (Suc f0)
          with 2 False nul Some show ?thesis by simp
        qed
      qed
    qed
  qed
qed

lemma realpath_aux_plain:
  "''..'' \<notin> set ys \<Longrightarrow> \<forall>l \<in> set lnks. \<not> strict_prefix r (fst l) \<Longrightarrow>
   realpath_aux f lnks r ys =
     (if \<exists>seg \<in> set ys. CHR 0x00 \<in> set seg then Inl (ValueError ''embedded null byte'')
      else Inr (r @ ys))"
proof (induction ys arbitrary: r)
  case Nil
  show ?case by simp
next
  case (Cons seg ys)
  have none: "map_of lnks (r @ [seg]) = None"
  proof (cases "map_of lnks (r @ [seg])")
    case None
    then show ?thesis .
  next
    case (Some t)
    then have "(r @ [seg], t) \<in> set lnks" by (rule map_of_SomeD)
    with Cons.prems(2) have "\<not> strict_prefix r (r @ [seg])" by force
    moreover have "strict_prefix r (r @ [seg])" by (simp add: strict_prefix_def)
    ultimately show ?thesis by blast
  qed
  have below: "\<forall>l \<in> set lnks. \<not> strict_prefix (r @ [seg]) (fst l)"
  proof
    fix l assume "l \<in> set lnks"
    with Cons.prems(2) have "\<not> strict_prefix r (fst l)" by simp
    moreover have "strict_prefix r (r @ [seg])" by (simp add: strict_prefix_def)
    ultimately show "\<not> strict_prefix (r @ [seg]) (fst l)"
      using prefix_order.less_trans by blast
  qed
  have seg: "seg \<noteq> ''..''" and ys: "''..'' \<notin> set ys" using Cons.prems(1) by auto
  from Cons.IH [OF ys below] seg none show ?case by simp
qed

lemma join_slash_append:
  "join_slash (xs @ ys) =
     (if xs = [] then join_slash ys
      else if ys = [] then join_slash xs
      else join_slash xs @ ''/'' @ join_slash ys)"
proof (induction xs rule: join_slash.induct)
  case 1
  show ?case by simp
next
  case (2 x)
  show ?case by (cases ys) simp_all
next
  case (3 x y zs)
  then show ?case by simp
qed

lemma str_path_prefix: "prefix (str_path r) (str_path (r @ ys))"
  by (simp add: str_path_def join_slash_append)

text \<open>
  C10 (as amended). For every storage key the path \<open>ensure_relative_path\<close> returns is
  relative and has no empty, \<open>.\<close> or \<open>..\<close> component. When the output root resolves
  and no symbolic link lies below the resolved root, \<open>safe_join\<close> returns the resolved
  root followed by those components, unless one of them holds a NUL byte and \<open>resolve\<close>
  raises for that; in either case the branch \<open>Unsafe path join detected\<close> is not taken.
\<close>

theorem safe_join_never_unsafe:
  assumes "resolve e rootdir = Inr r"
    and "\<forall>l \<in> set (links e). \<not> strict_prefix r (fst l)"
  shows "\<not> is_abs (ensure_relative_path key) \<and>
         set (parts (ensure_relative_path key)) \<inter> {[], ''.'', ''..''} = {} \<and>
         safe_join e rootdir (ensure_relative_path key) =
           (if \<exists>seg \<in> set (parts (ensure_relative_path key)). CHR 0x00 \<in> set seg
            then Inl (ValueError ''embedded null byte'')
            else Inr (r @ parts (ensure_relative_path key))) \<and>
         safe_join e rootdir (ensure_relative_path key) \<noteq>
           Inl (ValueError ''Unsafe path join detected'')"
proof -
  let ?rel = "ensure_relative_path key"
  let ?base = "if is_abs rootdir then parts rootdir else cwd e @ parts rootdir"
  have clean: "\<not> is_abs ?rel" "[] \<notin> set (parts ?rel)" "''.'' \<notin> set (parts ?rel)"
    "''..'' \<notin> set (parts ?rel)"
    using ensure_relative_path_clean [of key] by simp_all
  have base: "realpath_aux SYMLOOP_MAX (links e) [] ?base = Inr r"
    using assms(1) by (simp add: resolve_def)
  obtain f' where f': "\<And>ys. realpath_aux SYMLOOP_MAX (links e) [] (?base @ ys) =
      realpath_aux f' (links e) r ys"
    using realpath_aux_append [OF base] by blast
  have "resolve e (joinpath rootdir ?rel) =
      realpath_aux SYMLOOP_MAX (links e) [] (?base @ parts ?rel)"
    using clean(1) by (simp add: resolve_def joinpath_def)
  also have "\<dots> = (if \<exists>seg \<in> set (parts ?rel). CHR 0x00 \<in> set seg
      then Inl (ValueError ''embedded null byte'') else Inr (r @ parts ?rel))"
    using f' [of "parts ?rel"] realpath_aux_plain [OF clean(4) assms(2), of f'] by simp
  finally have cand: "resolve e (joinpath rootdir ?rel) =
      (if \<exists>seg \<in> set (parts ?rel). CHR 0x00 \<in> set seg
       then Inl (ValueError ''embedded null byte'') else Inr (r @ parts ?rel))" .
  have sj: "safe_join e rootdir ?rel =
      (if \<exists>seg \<in> set (parts ?rel). CHR 0x00 \<in> set seg
       then Inl (ValueError ''embedded null byte'') else Inr (r @ parts ?rel))"
    using cand assms(1) str_path_prefix [of r "parts ?rel"] by (simp add: safe_join_def)
  then have "safe_join e rootdir ?rel \<noteq> Inl (ValueError ''Unsafe path join detected'')"
    by simp
  with sj clean show ?thesis by simp
qed

subsection \<open>Path containment on three machines\<close>

lemma erp_passwd: "ensure_relative_path ''../../etc/passwd'' = PyPath False [''etc'', ''passwd'']"
  by code_simp

lemma erp_link: "ensure_relative_path ''l/passwd'' = PyPath False [''l'', ''passwd'']"
  by code_simp

lemma erp_dotdot: "ensure_relative_path ''..'' = PyPath False []"
  by code_simp

theorem safe_join_never_unsafe_witness:
  "resolve plain_env (PyPath False [''downloads'']) = Inr [''srv'', ''downloads''] \<and>
   \<not> strict_prefix [''srv'', ''downloads''] [''srv'', ''latest''] \<and>
   safe_join plain_env (PyPath False [''downloads'']) (ensure_relative_path ''../../etc/passwd'') =
     Inr [''srv'', ''downloads'', ''etc'', ''passwd'']"
proof -
  have r: "resolve plain_env (PyPath False [''downloads'']) = Inr [''srv'', ''downloads'']"
    by (simp add: resolve_def plain_env_def SYMLOOP_MAX_def)
  have n: "\<not> strict_prefix [''srv'', ''downloads''] [''srv'', ''latest'']"
    by (simp add: strict_prefix_def)
  then have l: "\<forall>l \<in> set (links plain_env). \<not> strict_prefix [''srv'', ''downloads''] (fst l)"
    by (simp add: plain_env_def)
  from safe_join_never_unsafe [OF r l, of "''../../etc/passwd''"] r n show ?thesis
    by (simp add: erp_passwd)
qed

text \<open>
  C10 as stated fails on a machine where a symbolic link below the output root points
  outside it: the key \<open>l/passwd\<close> passes \<open>ensure_relative_path\<close> unchanged, resolves to
  \<open>/etc/passwd\<close>, and \<open>safe_join\<close> takes its error branch.
\<close>

theorem safe_join_unsafe_counterexample:
  "safe_join linked_env data_out (ensure_relative_path ''l/passwd'') =
     Inl (ValueError ''Unsafe path join detected'')"
  by (simp add: erp_link safe_join_def resolve_def joinpath_def linked_env_def data_out_def
      SYMLOOP_MAX_def str_path_def)

subsection \<open>Downloads\<close>

lemma py_suffix_cases:
  "py_suffix name = [] \<or> (\<exists>i. i < length name \<and> py_suffix name = drop i name)"
proof (cases "py_suffix name = []")
  case True
  then show ?thesis by simp
next
  case False
  let ?i = "length name - length (takeWhile (\<lambda>c. c \<noteq> CHR ''.'') (rev name)) - 1"
  from False have "?i < length name - 1" and "py_suffix name = drop ?i name"
    by (simp_all add: py_suffix_def Let_def split: if_splits)
  then show ?thesis by (intro disjI2 exI [of _ ?i]) simp
qed

lemma with_suffix_part:
  assumes "dest \<noteq> []"
  shows "with_suffix dest (py_suffix (last dest) @ ''.part'') = Inr (part_name dest)"
proof -
  let ?name = "last dest"
  have "(if py_suffix ?name = [] then ?name @ py_suffix ?name @ ''.part''
         else take (length ?name - length (py_suffix ?name)) ?name @ py_suffix ?name @ ''.part'')
        = ?name @ ''.part''"
  proof (cases "py_suffix ?name = []")
    case True
    then show ?thesis by simp
  next
    case False
    then obtain i where i: "i < length ?name" "py_suffix ?name = drop i ?name"
      using py_suffix_cases [of ?name] by blast
    then have "length ?name - length (py_suffix ?name) = i" by simp
    with i False show ?thesis by simp
  qed
  with assms show ?thesis
    by (simp add: with_suffix_def part_name_def Let_def)
qed

lemma part_name_differs: "dest \<noteq> [] \<Longrightarrow> part_name dest \<noteq> dest"
proof
  assume "dest \<noteq> []" and "part_name dest = dest"
  then have "last (part_name dest) = last dest" by simp
  then show False by (simp add: part_name_def)
qed

lemma mkdir_chain_other:
  "mkdir_chain qs f = Inr f1 \<Longrightarrow> p \<notin> set qs \<Longrightarrow> f1 p = f p"
proof (induction qs arbitrary: f)
  case Nil
  then show ?case by simp
next
  case (Cons q qs)
  show ?case
  proof (cases "f q")
    case None
    with Cons.prems have "mkdir_chain qs (f(q \<mapsto> Dir)) = Inr f1" by simp
    from Cons.IH [OF this] Cons.prems(2) show ?thesis by simp
  next
    case (Some n)
    with Cons.prems have "n = Dir" and "mkdir_chain qs f = Inr f1"
      by (cases n; simp)+
    from Cons.IH [OF this(2)] Cons.prems(2) show ?thesis by simp
  qed
qed

lemma mkdir_parents_dest:
  assumes "mkdir_parents (butlast dest) f = Inr f1"
  shows "f1 dest = f dest"
proof (cases "dest = []")
  case True
  with assms show ?thesis by (simp add: mkdir_parents_def)
next
  case False
  have "dest \<notin> set (prefixes (butlast dest))"
  proof
    assume "dest \<in> set (prefixes (butlast dest))"
    then have "prefix dest (butlast dest)" by (simp add: in_set_prefixes)
    then have "length dest \<le> length (butlast dest)" by (rule prefix_length_le)
    then have "length dest \<le> length dest - 1" by (simp only: length_butlast)
    moreover have "0 < length dest" using False by simp
    ultimately show False by linarith
  qed
  then have "dest \<notin> set (tl (prefixes (butlast dest)))"
    by (metis list.sel(2) list.set_sel(2))
  with assms show ?thesis unfolding mkdir_parents_def by (rule mkdir_chain_other)
qed

lemma write_chunks_states:
  "f tmp = Some (File written) \<Longrightarrow>
   (\<forall>s \<in> set (write_chunks tmp written cs f). \<forall>p. p \<noteq> tmp \<longrightarrow> s p = f p) \<and>
   last (f # write_chunks tmp written cs f) tmp = Some (File (written @ concat cs))"
proof (induction cs arbitrary: written f)
  case Nil
  then show ?case by simp
next
  case (Cons c cs)
  show ?case
  proof (cases "c = []")
    case True
    with Cons.IH [where f = f and written = written, OF Cons.prems] show ?thesis by simp
  next
    case False
    let ?f = "f(tmp \<mapsto> File (written @ c))"
    let ?ws = "write_chunks tmp (written @ c) cs ?f"
    have w: "write_chunks tmp written (c # cs) f = ?f # ?ws" using False by simp
    have l: "last (f # ?f # ?ws) = last (?f # ?ws)" by (simp del: last.simps add: last_ConsR)
    have "?f tmp = Some (File (written @ c))" by simp
    from Cons.IH [where f = ?f and written = "written @ c", OF this]
    have ih: "\<forall>s \<in> set ?ws. \<forall>p. p \<noteq> tmp \<longrightarrow> s p = ?f p"
      "last (?f # ?ws) tmp = Some (File ((written @ c) @ concat cs))"
      by blast+
    show ?thesis unfolding w l using ih by (simp del: last.simps)
  qed
qed

lemma last_write_chunks_other:
  assumes "f tmp = Some (File written)" and "p \<noteq> tmp"
  shows "last (f # write_chunks tmp written cs f) p = f p"
proof (cases "write_chunks tmp written cs f = []")
  case True
  then show ?thesis by simp
next
  case False
  then have "last (f # write_chunks tmp written cs f) \<in> set (write_chunks tmp written cs f)"
    by simp
  with write_chunks_states [where f = f and tmp = tmp and written = written, OF assms(1), of cs]
    assms(2)
  show ?thesis by blast
qed

lemma chunked_download_stream:
  assumes "dest \<noteq> []" and "mkdir_parents (butlast dest) f = Inr f1" and "got = Inr r"
    and "status r < 400" and "f1 (part_name dest) \<noteq> Some Dir"
  shows "chunked_download got dest f =
     (let f2 = f1(part_name dest \<mapsto> File []);
          ws = write_chunks (part_name dest) [] (chunks r) f2;
          f3 = last (f2 # ws)
      in if broken r then (Inl ConnectionError, f1 # f2 # ws)
         else if f3 dest = Some Dir then (Inl OSError, f1 # f2 # ws)
         else (Inr (), f1 # f2 # ws @ [f3(dest := f3 (part_name dest), part_name dest := None)]))"
  using assms by (simp add: chunked_download_def with_suffix_part Let_def del: last.simps)

lemma chunked_download_early:
  assumes "\<not> (dest \<noteq> [] \<and> (\<exists>f1 r. mkdir_parents (butlast dest) f = Inr f1 \<and> got = Inr r \<and>
              status r < 400 \<and> f1 (part_name dest) \<noteq> Some Dir))"
  shows "\<exists>e. chunked_download got dest f = (Inl e, []) \<or>
             (\<exists>f1. mkdir_parents (butlast dest) f = Inr f1 \<and>
                   chunked_download got dest f = (Inl e, [f1]))"
proof (cases "mkdir_parents (butlast dest) f")
  case (Inl e)
  then show ?thesis by (simp add: chunked_download_def)
next
  case (Inr f1)
  show ?thesis
  proof (cases "dest = []")
    case True
    with Inr show ?thesis by (simp add: chunked_download_def with_suffix_def)
  next
    case False
    with Inr assms show ?thesis
      by (cases got) (auto simp: chunked_download_def with_suffix_part)
  qed
qed

text \<open>
  C3. In every download the only path written while the body is streamed is the
  temporary sibling, the destination with \<open>.part\<close> appended to its name; until the final
  \<open>replace\<close> the destination is what it was before the download. When the download
  succeeds, the last effect is the rename: the destination then holds all the bytes and
  the temporary file is gone. When the stream breaks after the temporary file was
  opened, the download fails, the destination is untouched in every state, and the
  temporary file is left with the bytes received so far.
\<close>

theorem chunked_download_atomic:
  assumes "chunked_download got dest f = (res, trace)"
  shows "(\<forall>s \<in> set (if res = Inr () then butlast trace else trace). s dest = f dest) \<and>
         (\<forall>f1. mkdir_parents (butlast dest) f = Inr f1 \<longrightarrow>
            (\<forall>s \<in> set (if res = Inr () then butlast trace else trace).
               \<forall>p. p \<noteq> part_name dest \<longrightarrow> s p = f1 p)) \<and>
         (res = Inr () \<longrightarrow>
            (\<exists>r. got = Inr r \<and> \<not> broken r \<and> trace \<noteq> [] \<and>
                 last trace dest = Some (File (concat (chunks r))) \<and>
                 last trace (part_name dest) = None)) \<and>
         (\<forall>r f1. got = Inr r \<and> status r < 400 \<and> broken r \<and> dest \<noteq> [] \<and>
                 mkdir_parents (butlast dest) f = Inr f1 \<and> f1 (part_name dest) \<noteq> Some Dir \<longrightarrow>
            res = Inl ConnectionError \<and> trace \<noteq> [] \<and>
            last trace (part_name dest) = Some (File (concat (chunks r))))"
proof (cases "dest \<noteq> [] \<and> (\<exists>f1 r. mkdir_parents (butlast dest) f = Inr f1 \<and> got = Inr r \<and>
              status r < 400 \<and> f1 (part_name dest) \<noteq> Some Dir)")
  case False
  from chunked_download_early [OF False] assms
  obtain e where e: "res = Inl e"
    and t: "trace = [] \<or> (\<exists>f1. mkdir_parents (butlast dest) f = Inr f1 \<and> trace = [f1])"
    by auto
  have "\<forall>s \<in> set trace. s dest = f dest"
    using t mkdir_parents_dest by auto
  moreover have "\<forall>f1. mkdir_parents (butlast dest) f = Inr f1 \<longrightarrow>
      (\<forall>s \<in> set trace. \<forall>p. p \<noteq> part_name dest \<longrightarrow> s p = f1 p)"
    using t by auto
  ultimately show ?thesis using e False by auto
next
  case True
  then obtain f1 r where d: "dest \<noteq> []" and m: "mkdir_parents (butlast dest) f = Inr f1"
    and g: "got = Inr r" and st: "status r < 400" and nd: "f1 (part_name dest) \<noteq> Some Dir"
    by blast
  let ?tmp = "part_name dest"
  let ?f2 = "f1(?tmp \<mapsto> File [])"
  let ?ws = "write_chunks ?tmp [] (chunks r) ?f2"
  let ?f3 = "last (?f2 # ?ws)"
  have neq: "dest \<noteq> ?tmp" using part_name_differs [OF d] by simp
  have f1d: "f1 dest = f dest" using mkdir_parents_dest [OF m] .
  have f2t: "?f2 ?tmp = Some (File [])" by simp
  have ws: "\<forall>s \<in> set ?ws. \<forall>p. p \<noteq> ?tmp \<longrightarrow> s p = ?f2 p"
    and f3t: "?f3 ?tmp = Some (File (concat (chunks r)))"
    using write_chunks_states [where f = ?f2 and tmp = ?tmp and written = "[]", OF f2t, of "chunks r"]
    by simp_all
  have f3d: "?f3 dest = f dest"
    using last_write_chunks_other [where f = ?f2 and tmp = ?tmp and written = "[]", OF f2t, of dest "chunks r"]
      neq f1d
    by simp
  have streamed: "\<forall>s \<in> set (f1 # ?f2 # ?ws). \<forall>p. p \<noteq> ?tmp \<longrightarrow> s p = f1 p"
    using ws by simp
  then have untouched: "\<forall>s \<in> set (f1 # ?f2 # ?ws). s dest = f dest"
    using neq f1d by metis
  note cd = chunked_download_stream [OF d m g st nd, unfolded Let_def]
  show ?thesis
  proof (cases "broken r")
    case True
    with cd assms have r: "res = Inl ConnectionError" "trace = f1 # ?f2 # ?ws" by simp_all
    have "last trace ?tmp = Some (File (concat (chunks r)))"
      unfolding r using f3t by (simp del: last.simps add: last_ConsR)
    with r streamed untouched m g True show ?thesis by (simp del: last.simps)
  next
    case nb: False
    show ?thesis
    proof (cases "?f3 dest = Some Dir")
      case True
      with cd assms nb have r: "res = Inl OSError" "trace = f1 # ?f2 # ?ws" by simp_all
      with streamed untouched m g nb show ?thesis by (simp del: last.simps)
    next
      case False
      with cd assms nb have r: "res = Inr ()"
        "trace = (f1 # ?f2 # ?ws) @ [?f3(dest := ?f3 ?tmp, ?tmp := None)]"
        by simp_all
      have b: "butlast trace = f1 # ?f2 # ?ws" unfolding r by (rule butlast_snoc)
      have l: "last trace = ?f3(dest := ?f3 ?tmp, ?tmp := None)" unfolding r by (rule last_snoc)
      have "last trace dest = Some (File (concat (chunks r)))" "last trace ?tmp = None"
        unfolding l using f3t neq by simp_all
      moreover have "trace \<noteq> []" unfolding r by simp
      ultimately show ?thesis
        using r(1) b streamed untouched m g nb by (simp del: last.simps)
    qed
  qed
qed

lemma part_name_h5: "part_name h5_dest = [''data'', ''out'', ''a.h5.part'']"
  by (simp add: part_name_def h5_dest_def)

lemma mkdir_h5:
  "mkdir_parents (butlast h5_dest) Map.empty =
     Inr (Map.empty([''data''] \<mapsto> Dir, [''data'', ''out''] \<mapsto> Dir))"
  by (simp add: mkdir_parents_def h5_dest_def)

theorem chunked_download_atomic_witness:
  "fst (chunked_download good_get h5_dest Map.empty) = Inr () \<and>
   map (\<lambda>s. s h5_dest) (butlast (snd (chunked_download good_get h5_dest Map.empty))) =
     [None, None, None, None] \<and>
   last (snd (chunked_download good_get h5_dest Map.empty)) h5_dest = Some (File ''abc'') \<and>
   last (snd (chunked_download good_get h5_dest Map.empty)) [''data'', ''out'', ''a.h5.part''] = None \<and>
   fst (chunked_download broken_get h5_dest Map.empty) = Inl ConnectionError \<and>
   map (\<lambda>s. s h5_dest) (snd (chunked_download broken_get h5_dest Map.empty)) =
     [None, None, None, None] \<and>
   last (snd (chunked_download broken_get h5_dest Map.empty)) [''data'', ''out'', ''a.h5.part''] =
     Some (File ''abc'')"
proof -
  let ?good = "chunked_download good_get h5_dest Map.empty"
  let ?bad = "chunked_download broken_get h5_dest Map.empty"
  have g1: "fst ?good = Inr ()" by code_simp
  have g2: "map (\<lambda>s. s h5_dest) (butlast (snd ?good)) = [None, None, None, None]" by code_simp
  have b2: "map (\<lambda>s. s h5_dest) (snd ?bad) = [None, None, None, None]" by code_simp
  note good = chunked_download_atomic [OF surjective_pairing, of good_get h5_dest Map.empty]
  note bad = chunked_download_atomic [OF surjective_pairing, of broken_get h5_dest Map.empty]
  from good g1 have g3: "last (snd ?good) h5_dest = Some (File ''abc'')"
    and g4: "last (snd ?good) [''data'', ''out'', ''a.h5.part''] = None"
    by (auto simp: good_get_def part_name_h5)
  have pre: "broken_get = Inr \<lparr>status = 200, chunks = [''ab'', [], ''c''], broken = True\<rparr> \<and>
      status \<lparr>status = 200, chunks = [''ab'', [], ''c''], broken = True\<rparr> < 400 \<and>
      broken \<lparr>status = 200, chunks = [''ab'', [], ''c''], broken = True\<rparr> \<and> h5_dest \<noteq> [] \<and>
      mkdir_parents (butlast h5_dest) Map.empty =
        Inr (Map.empty([''data''] \<mapsto> Dir, [''data'', ''out''] \<mapsto> Dir)) \<and>
      (Map.empty([''data''] \<mapsto> Dir, [''data'', ''out''] \<mapsto> Dir)) (part_name h5_dest) \<noteq> Some Dir"
    by (simp add: broken_get_def mkdir_h5 part_name_h5) (simp add: h5_dest_def)
  from bad pre have b1: "fst ?bad = Inl ConnectionError"
    and b3: "last (snd ?bad) [''data'', ''out'', ''a.h5.part''] = Some (File ''abc'')"
    by (auto simp: part_name_h5 simp del: last.simps)
  from g1 g2 g3 g4 b1 b2 b3 show ?thesis by simp
qed

subsection \<open>Processing a job\<close>

text \<open>
  C5. When the lookup answers with a key and a URL, the key resolves to a destination
  inside the output root, and that destination exists with a size above zero, then
  \<open>process_job\<close> returns without an error, fetches no URL and leaves the file system as
  it is.
\<close>

theorem skip_if_complete:
  assumes "http_post j = Inr (JDict info)"
    and "py_get info ''key'' = JStr k" and "k \<noteq> []"
    and "truthy (py_get info ''url'')"
    and "safe_join e output_dir (ensure_relative_path k) = Inr dest"
    and "f dest = Some n" and "0 < st_size e n"
  shows "process_job e http_post http_get output_dir j f = (Inr (), [], [])"
  using assms by (simp add: process_job_def)

lemma erp_h5: "ensure_relative_path ''2023/a.h5'' = PyPath False [''2023'', ''a.h5'']"
  by code_simp

lemma safe_join_h5:
  "safe_join plain_env data_out (ensure_relative_path ''2023/a.h5'') =
     Inr [''data'', ''out'', ''2023'', ''a.h5'']"
  by (simp add: erp_h5 safe_join_def resolve_def joinpath_def plain_env_def data_out_def
      SYMLOOP_MAX_def str_path_def)

theorem skip_if_complete_witness:
  "h5_post vmi_job = Inr (JDict [(''key'', JStr ''2023/a.h5''), (''url'', JStr ''https://s3/x'')]) \<and>
   safe_join plain_env data_out (ensure_relative_path ''2023/a.h5'') =
     Inr [''data'', ''out'', ''2023'', ''a.h5''] \<and>
   0 < st_size plain_env (File ''xyz'') \<and>
   process_job plain_env h5_post abc_get data_out vmi_job
       [[''data'', ''out'', ''2023'', ''a.h5''] \<mapsto> File ''xyz''] = (Inr (), [], [])"
proof -
  have p: "h5_post vmi_job =
      Inr (JDict [(''key'', JStr ''2023/a.h5''), (''url'', JStr ''https://s3/x'')])"
    by (simp add: h5_post_def)
  have k: "py_get [(''key'', JStr ''2023/a.h5''), (''url'', JStr ''https://s3/x'')] ''key'' =
      JStr ''2023/a.h5''"
    and u: "truthy (py_get [(''key'', JStr ''2023/a.h5''), (''url'', JStr ''https://s3/x'')] ''url'')"
    by (simp_all add: py_get_def)
  have z: "0 < st_size plain_env (File ''xyz'')" by (simp add: st_size_def)
  have e: "[[''data'', ''out'', ''2023'', ''a.h5''] \<mapsto> File ''xyz'']
      [''data'', ''out'', ''2023'', ''a.h5''] = Some (File ''xyz'')"
    by simp
  from skip_if_complete
    [where http_post = h5_post and j = vmi_job and http_get = abc_get
       and f = "[[''data'', ''out'', ''2023'', ''a.h5''] \<mapsto> File ''xyz'']",
     OF p k _ u safe_join_h5 e z]
    p safe_join_h5 z
  show ?thesis by simp
qed

text \<open>
  C2, where the code departs from it. For the storage key \<open>..\<close> the sanitised path is
  empty, so the destination \<open>safe_join\<close> accepts is the output root itself. With the
  root not yet on disk, the body is streamed to \<open>/data/out.part\<close>, a sibling of the
  root, and then renamed onto the root.
\<close>

theorem dotdot_key_writes_outside_root:
  "resolve plain_env data_out = Inr [''data'', ''out''] \<and>
   safe_join plain_env data_out (ensure_relative_path ''..'') = Inr [''data'', ''out''] \<and>
   fst (process_job plain_env dotdot_post abc_get data_out vmi_job Map.empty) = Inr () \<and>
   map (\<lambda>s. (s [''data'', ''out''], s [''data'', ''out.part'']))
     (fst (snd (process_job plain_env dotdot_post abc_get data_out vmi_job Map.empty))) =
     [(None, None), (None, Some (File [])), (None, Some (File ''abc'')),
      (Some (File ''abc''), None)]"
  by code_simp

theorem dotdot_key_writes_outside_root_witness:
  "safe_join plain_env data_out (ensure_relative_path ''..'') = Inr [''data'', ''out''] \<and>
   fst (process_job plain_env dotdot_post abc_get data_out vmi_job Map.empty) = Inr () \<and>
   \<not> prefix [''data'', ''out''] [''data'', ''out.part'']"
proof -
  have "\<not> prefix [''data'', ''out''] [''data'', ''out.part'']" by simp
  with dotdot_key_writes_outside_root show ?thesis by blast
qed

text \<open>
  The test in \<open>safe_join\<close> compares strings: a link below the root that points to
  \<open>/data/out-evil\<close> yields a destination outside \<open>/data/out\<close> that passes it.
\<close>

theorem safe_join_prefix_sibling:
  "resolve sibling_env data_out = Inr [''data'', ''out''] \<and>
   safe_join sibling_env data_out (ensure_relative_path ''l/x'') = Inr [''data'', ''out-evil'', ''x'']"
  by code_simp

end
